theory Spec2Isabelle
  imports Main
begin

section \<open>The tic-tac-toe engine of Script.js\<close>

text \<open>
  The class \<open>TicTacToe\<close> of Script.js keeps the game in five fields: \<open>board\<close>,
  \<open>currentPlayer\<close>, \<open>gameIsActive\<close>, \<open>scores\<close> and \<open>winningCells\<close>. Its methods
  \<open>handleCellClick\<close>, \<open>checkWin\<close>, \<open>handleWin\<close>, \<open>handleDraw\<close>, \<open>resetGame\<close> and
  \<open>resetAll\<close> are translated below as functions from the state to the new state.

  What is left out: the DOM nodes, styles, status text and audio elements. They are written
  but never read back into the five fields, and they are taken to exist (index.html is where
  they are declared), so that no DOM call fails. The two flags \<open>soundEnabled\<close> and
  \<open>musicEnabled\<close> only guard audio calls.

  The score counters are JavaScript Numbers that start at 0 and grow by one per finished
  round; they are modelled as natural numbers, which is exact as long as a counter stays
  below \<open>2^53\<close>.
\<close>

subsection \<open>Data\<close>

text \<open>The strings \<open>"X"\<close> and \<open>"O"\<close> of \<open>currentPlayer\<close>.\<close>

datatype player = PlayerX | PlayerO

text \<open>A board cell holds \<open>""\<close>, \<open>"X"\<close> or \<open>"O"\<close>.\<close>

datatype cell = Empty | Mark player

text \<open>
  The value of \<open>parseInt(cell.dataset.index)\<close>: an integer, or \<open>NaN\<close> when the attribute
  is missing or is not a number.
\<close>

datatype js_index = NaN | Idx int

text \<open>\<open>scores = { X: 0, O: 0, draw: 0 }\<close>\<close>

record scoreboard =
  scoreX :: nat
  scoreO :: nat
  scoreDraw :: nat

text \<open>
  The game fields. \<open>pendingResets\<close> counts the callbacks that \<open>handleWin\<close> and
  \<open>handleDraw\<close> have handed to \<open>setTimeout\<close> and that have not run yet; each of them
  calls \<open>resetGame\<close> when it runs.
\<close>

record game =
  board :: "cell list"
  currentPlayer :: player
  gameIsActive :: bool
  scores :: scoreboard
  winningCells :: "nat list"
  pendingResets :: nat

text \<open>The three phases of the specification, read off the fields (see \<open>phase\<close> below).\<close>

datatype phase = InProgress | Won player | Draw

text \<open>The branch that a click takes (the specification's outcome of a move).\<close>

datatype outcome = Rejected | Continue player | Win player "nat list" | DrawOutcome

text \<open>What can happen to the page: a click on a cell, on either button, or a timer running.\<close>

datatype event = CellClick js_index | RestartClick | ResetAllClick | TimerFire

subsection \<open>Reading and writing the board\<close>

text \<open>
  \<open>this.board[n]\<close> for a number \<open>n\<close>: the element when \<open>n\<close> is within the array,
  \<open>undefined\<close> (here \<open>None\<close>) otherwise. Reading never throws.
\<close>

definition cellAt :: "cell list \<Rightarrow> nat \<Rightarrow> cell option" where
  "cellAt bd n = (if n < length bd then Some (bd ! n) else None)"

fun boardAt :: "cell list \<Rightarrow> js_index \<Rightarrow> cell option" where
  "boardAt bd NaN = None"
| "boardAt bd (Idx n) = (if 0 \<le> n then cellAt bd (nat n) else None)"

text \<open>
  \<open>this.board[index] = v\<close>. The only assignment of the source stands behind the test
  \<open>this.board[index] === ""\<close>, which holds within the array only; there it replaces one
  element. Outside the array the function is never called and returns the board as it is.
\<close>

fun boardSet :: "cell list \<Rightarrow> js_index \<Rightarrow> cell \<Rightarrow> cell list" where
  "boardSet bd NaN v = bd"
| "boardSet bd (Idx n) v = (if 0 \<le> n \<and> nat n < length bd then bd[nat n := v] else bd)"

text \<open>Truthiness of \<open>this.board[a]\<close>: \<open>undefined\<close> and \<open>""\<close> are falsy.\<close>

fun truthy :: "cell option \<Rightarrow> bool" where
  "truthy None = False"
| "truthy (Some Empty) = False"
| "truthy (Some (Mark p)) = True"

subsection \<open>The constructor\<close>

definition winPatterns :: "nat list list" where
  "winPatterns =
     [[0, 1, 2], [3, 4, 5], [6, 7, 8],
      [0, 3, 6], [1, 4, 7], [2, 5, 8],
      [0, 4, 8], [2, 4, 6]]"

definition noScores :: scoreboard where
  "noScores = \<lparr>scoreX = 0, scoreO = 0, scoreDraw = 0\<rparr>"

definition newGame :: game where
  "newGame = \<lparr>board = replicate 9 Empty, currentPlayer = PlayerX, gameIsActive = True,
            scores = noScores, winningCells = [], pendingResets = 0\<rparr>"

subsection \<open>checkWin\<close>

text \<open>
  The test inside the loop, after \<open>const [a, b, c] = pattern\<close>. A pattern with fewer than
  three entries leaves \<open>c\<close> undefined and cannot match.
\<close>

fun matches :: "cell list \<Rightarrow> nat list \<Rightarrow> bool" where
  "matches bd (a # b # c # rest) =
     (truthy (cellAt bd a) \<and> cellAt bd a = cellAt bd b \<and> cellAt bd a = cellAt bd c)"
| "matches bd pattern = False"

text \<open>The \<open>for ... of\<close> loop: the first pattern that matches, in the order of the list.\<close>

fun checkWinLoop :: "cell list \<Rightarrow> nat list list \<Rightarrow> nat list option" where
  "checkWinLoop bd [] = None"
| "checkWinLoop bd (pattern # patterns) =
     (if matches bd pattern then Some pattern else checkWinLoop bd patterns)"

text \<open>\<open>checkWin\<close> returns a boolean and, when it is true, has stored the pattern.\<close>

definition checkWin :: "game \<Rightarrow> bool \<times> game" where
  "checkWin g =
     (case checkWinLoop (board g) winPatterns of
        Some pattern \<Rightarrow> (True, g\<lparr>winningCells := pattern\<rparr>)
      | None \<Rightarrow> (False, g))"

subsection \<open>handleWin, handleDraw, resetGame, resetAll\<close>

text \<open>\<open>this.scores[this.currentPlayer]++\<close>\<close>

fun incScore :: "player \<Rightarrow> scoreboard \<Rightarrow> scoreboard" where
  "incScore PlayerX sc = sc\<lparr>scoreX := scoreX sc + 1\<rparr>"
| "incScore PlayerO sc = sc\<lparr>scoreO := scoreO sc + 1\<rparr>"

fun scoreOf :: "player \<Rightarrow> scoreboard \<Rightarrow> nat" where
  "scoreOf PlayerX sc = scoreX sc"
| "scoreOf PlayerO sc = scoreO sc"

definition handleWin :: "game \<Rightarrow> game" where
  "handleWin g =
     g\<lparr>gameIsActive := False,
       scores := incScore (currentPlayer g) (scores g),
       pendingResets := pendingResets g + 1\<rparr>"

definition handleDraw :: "game \<Rightarrow> game" where
  "handleDraw g =
     g\<lparr>gameIsActive := False,
       scores := (scores g)\<lparr>scoreDraw := scoreDraw (scores g) + 1\<rparr>,
       pendingResets := pendingResets g + 1\<rparr>"

definition resetGame :: "game \<Rightarrow> game" where
  "resetGame g =
     g\<lparr>board := replicate (length (board g)) Empty,
       currentPlayer := PlayerX,
       gameIsActive := True,
       winningCells := []\<rparr>"

definition resetAll :: "game \<Rightarrow> game" where
  "resetAll g = resetGame (g\<lparr>scores := noScores\<rparr>)"

subsection \<open>handleCellClick\<close>

text \<open>The test that guards the whole body of \<open>handleCellClick\<close>.\<close>

definition accepted :: "game \<Rightarrow> js_index \<Rightarrow> bool" where
  "accepted g i = (boardAt (board g) i = Some Empty \<and> gameIsActive g)"

text \<open>\<open>this.board.every((c) => c !== "")\<close>\<close>

definition boardFull :: "cell list \<Rightarrow> bool" where
  "boardFull bd = list_all (\<lambda>c. c \<noteq> Empty) bd"

text \<open>
  The body of \<open>handleCellClick\<close>. The source returns nothing; the first component
  names the branch that was taken, the second is the state the call leaves behind.
\<close>

definition attemptMove :: "game \<Rightarrow> js_index \<Rightarrow> outcome \<times> game" where
  "attemptMove g i =
     (if boardAt (board g) i = Some Empty \<and> gameIsActive g then
        (let g1 = g\<lparr>board := boardSet (board g) i (Mark (currentPlayer g))\<rparr>;
             (won, g2) = checkWin g1
         in if won then (Win (currentPlayer g2) (winningCells g2), handleWin g2)
            else if boardFull (board g2) then (DrawOutcome, handleDraw g2)
            else
              (let g3 = g2\<lparr>currentPlayer :=
                             (if currentPlayer g2 = PlayerX then PlayerO else PlayerX)\<rparr>
               in (Continue (currentPlayer g3), g3)))
      else (Rejected, g))"

definition handleCellClick :: "game \<Rightarrow> js_index \<Rightarrow> game" where
  "handleCellClick g i = snd (attemptMove g i)"

subsection \<open>Events and runs\<close>

text \<open>
  The listeners installed by \<open>init()\<close>, and the callback given to \<open>setTimeout\<close>, which
  can run only when one is pending. The 2000 ms of the delay are not modelled: a pending
  callback may run at any later moment.
\<close>

fun fire :: "game \<Rightarrow> event \<Rightarrow> game" where
  "fire g (CellClick i) = handleCellClick g i"
| "fire g RestartClick = resetGame g"
| "fire g ResetAllClick = resetAll g"
| "fire g TimerFire =
     (if 0 < pendingResets g then resetGame (g\<lparr>pendingResets := pendingResets g - 1\<rparr>)
      else g)"

definition run :: "game \<Rightarrow> event list \<Rightarrow> game" where
  "run g es = foldl fire g es"

definition play :: "game \<Rightarrow> js_index list \<Rightarrow> game" where
  "play g js = foldl handleCellClick g js"

subsection \<open>Observations\<close>

text \<open>
  The phase of the specification in terms of the fields: the game is in progress while
  \<open>gameIsActive\<close> holds; once it is off, a stored winning pattern tells a win (of the
  player whose turn it was) from a draw.
\<close>

definition phase :: "game \<Rightarrow> phase" where
  "phase g =
     (if gameIsActive g then InProgress
      else if winningCells g \<noteq> [] then Won (currentPlayer g)
      else Draw)"

text \<open>The players who made the accepted moves of a series of clicks, in order.\<close>

fun movers :: "game \<Rightarrow> js_index list \<Rightarrow> player list" where
  "movers g [] = []"
| "movers g (i # js) =
     (if accepted g i then currentPlayer g # movers (handleCellClick g i) js
      else movers (handleCellClick g i) js)"

text \<open>
  The lines of a 3x3 board numbered row by row, as the specification lists them:
  three rows, three columns, two diagonals.
\<close>

definition rowsOfBoard :: "nat list list" where
  "rowsOfBoard = map (\<lambda>r. [3 * r, 3 * r + 1, 3 * r + 2]) [0, 1, 2]"

definition columnsOfBoard :: "nat list list" where
  "columnsOfBoard = map (\<lambda>c. [c, c + 3, c + 6]) [0, 1, 2]"

definition diagonalsOfBoard :: "nat list list" where
  "diagonalsOfBoard = [[0, 4, 8], [2, 4, 6]]"

text \<open>The board after the current player's mark has been put on cell \<open>i\<close>.\<close>

definition marked :: "game \<Rightarrow> js_index \<Rightarrow> cell list" where
  "marked g i = boardSet (board g) i (Mark (currentPlayer g))"

definition countMark :: "player \<Rightarrow> cell list \<Rightarrow> nat" where
  "countMark p bd = length (filter (\<lambda>c. c = Mark p) bd)"

subsection \<open>Auxiliary notions\<close>

text \<open>
  The turn invariant: the marks are balanced, and while the game runs it is the turn of
  \<open>X\<close> exactly when both players have as many marks.
\<close>

definition turnInv :: "game \<Rightarrow> bool" where
  "turnInv g =
     ((countMark PlayerX (board g) = countMark PlayerO (board g) \<or>
       countMark PlayerX (board g) = countMark PlayerO (board g) + 1) \<and>
      (gameIsActive g \<longrightarrow>
         (currentPlayer g = PlayerX) = (countMark PlayerX (board g) = countMark PlayerO (board g))))"

text \<open>The cells that a series of clicks has marked.\<close>

definition markedBy :: "js_index list \<Rightarrow> cell list \<Rightarrow> bool" where
  "markedBy js bd =
     (length bd = 9 \<and> (\<forall>n<9. (bd ! n = Empty) = (Idx (int n) \<notin> set js)))"

subsection \<open>Sample games\<close>

text \<open>\<open>X\<close> holds cells 0 and 1, \<open>O\<close> holds 3 and 4, and \<open>X\<close> is to move.\<close>

definition rowInSight :: game where
  "rowInSight = play newGame [Idx 0, Idx 3, Idx 1, Idx 4]"

text \<open>The round that \<open>X\<close> has won on the top row.\<close>

definition afterWin :: game where
  "afterWin = handleCellClick rowInSight (Idx 2)"

text \<open>
  \<open>X\<close> holds 3, 4, 6 and 8, \<open>O\<close> holds 1, 2, 5 and 7: a mark on cell 0 completes the
  left column and a diagonal at once.
\<close>

definition twoLinesInSight :: game where
  "twoLinesInSight = play newGame [Idx 3, Idx 1, Idx 6, Idx 2, Idx 4, Idx 5, Idx 8, Idx 7]"

text \<open>Nine moves that fill the board and complete no line.\<close>

definition drawMoves :: "js_index list" where
  "drawMoves = [Idx 0, Idx 1, Idx 2, Idx 4, Idx 3, Idx 5, Idx 7, Idx 6, Idx 8]"

section \<open>Properties\<close>

subsection \<open>The loop of checkWin\<close>

lemma checkWinLoop_None: "checkWinLoop bd ps = None \<longleftrightarrow> list_all (\<lambda>p. \<not> matches bd p) ps"
  by (induction ps) auto

lemma checkWinLoop_Some: "checkWinLoop bd ps = Some p \<Longrightarrow> p \<in> set ps \<and> matches bd p"
  by (induction ps) (auto split: if_splits)

lemma matches_three:
  "matches bd [a, b, c] =
     (\<exists>p. cellAt bd a = Some (Mark p) \<and> cellAt bd b = Some (Mark p) \<and>
          cellAt bd c = Some (Mark p))"
proof (cases "cellAt bd a")
  case None
  then show ?thesis by simp
next
  case (Some x)
  then show ?thesis by (cases x) auto
qed

lemma matches_nonempty: "matches bd p \<Longrightarrow> p \<noteq> []"
  by (cases p) auto

lemma checkWinLoop_first:
  "k < length ps \<Longrightarrow> matches bd (ps ! k) \<Longrightarrow> (\<And>j. j < k \<Longrightarrow> \<not> matches bd (ps ! j)) \<Longrightarrow>
   checkWinLoop bd ps = Some (ps ! k)"
proof (induction ps arbitrary: k)
  case Nil
  then show ?case by simp
next
  case (Cons p ps)
  show ?case
  proof (cases k)
    case 0
    with Cons.prems show ?thesis by simp
  next
    case (Suc m)
    have "\<not> matches bd p" using Cons.prems(3)[of 0] Suc by simp
    moreover have "checkWinLoop bd ps = Some (ps ! m)"
    proof (rule Cons.IH)
      show "m < length ps" using Cons.prems(1) Suc by simp
      show "matches bd (ps ! m)" using Cons.prems(2) Suc by simp
      fix j assume "j < m"
      then have "Suc j < k" using Suc by simp
      from Cons.prems(3)[OF this] show "\<not> matches bd (ps ! j)" by simp
    qed
    ultimately show ?thesis using Suc by simp
  qed
qed

lemma attemptMove_rejected: "\<not> accepted g i \<Longrightarrow> attemptMove g i = (Rejected, g)"
  by (auto simp add: attemptMove_def accepted_def)

lemma attemptMove_win:
  "accepted g i \<Longrightarrow> checkWinLoop (marked g i) winPatterns = Some p \<Longrightarrow>
   attemptMove g i =
     (Win (currentPlayer g) p,
      g\<lparr>board := marked g i, winningCells := p, gameIsActive := False,
        scores := incScore (currentPlayer g) (scores g),
        pendingResets := pendingResets g + 1\<rparr>)"
  by (simp add: attemptMove_def accepted_def marked_def checkWin_def handleWin_def)

lemma attemptMove_draw:
  "accepted g i \<Longrightarrow> checkWinLoop (marked g i) winPatterns = None \<Longrightarrow> boardFull (marked g i) \<Longrightarrow>
   attemptMove g i =
     (DrawOutcome,
      g\<lparr>board := marked g i, gameIsActive := False,
        scores := (scores g)\<lparr>scoreDraw := scoreDraw (scores g) + 1\<rparr>,
        pendingResets := pendingResets g + 1\<rparr>)"
  by (simp add: attemptMove_def accepted_def marked_def checkWin_def handleDraw_def)

lemma attemptMove_continue:
  "accepted g i \<Longrightarrow> checkWinLoop (marked g i) winPatterns = None \<Longrightarrow> \<not> boardFull (marked g i) \<Longrightarrow>
   attemptMove g i =
     (Continue (if currentPlayer g = PlayerX then PlayerO else PlayerX),
      g\<lparr>board := marked g i,
        currentPlayer := (if currentPlayer g = PlayerX then PlayerO else PlayerX)\<rparr>)"
  by (simp add: attemptMove_def accepted_def marked_def checkWin_def)

subsection \<open>Rejected clicks and finished rounds\<close>

lemma handleCellClick_rejected: "\<not> accepted g i \<Longrightarrow> handleCellClick g i = g"
  by (simp add: handleCellClick_def attemptMove_rejected)

lemma inactive_not_accepted: "\<not> gameIsActive g \<Longrightarrow> \<not> accepted g i"
  by (simp add: accepted_def)

lemma play_inactive: "\<not> gameIsActive g \<Longrightarrow> play g js = g"
  unfolding play_def
  by (induction js) (simp_all add: handleCellClick_rejected inactive_not_accepted)

lemma phase_InProgress: "phase g = InProgress \<longleftrightarrow> gameIsActive g"
  by (simp add: phase_def)

lemma boardAt_outside:
  "length bd = 9 \<Longrightarrow> i \<notin> Idx ` {0..8} \<Longrightarrow> boardAt bd i = None"
  by (cases i) (auto simp: cellAt_def)

lemma exists_match:
  "p \<in> set ps \<Longrightarrow> matches bd p \<Longrightarrow> \<exists>q. checkWinLoop bd ps = Some q"
  by (induction ps) auto

subsection \<open>Marks and turns\<close>

lemma countMark_update:
  "n < length bd \<Longrightarrow> bd ! n = Empty \<Longrightarrow>
   countMark p (bd[n := Mark q]) = countMark p bd + (if p = q then 1 else 0)"
  unfolding countMark_def
proof (induction bd arbitrary: n)
  case Nil
  then show ?case by simp
next
  case (Cons c bd)
  then show ?case by (cases n) auto
qed

lemma countMark_replicate: "countMark p (replicate n Empty) = 0"
  by (simp add: countMark_def)

lemma accepted_marked:
  "accepted g i \<Longrightarrow>
   \<exists>n. i = Idx (int n) \<and> n < length (board g) \<and> board g ! n = Empty \<and>
       marked g i = (board g)[n := Mark (currentPlayer g)]"
proof (cases i)
  case NaN
  assume "accepted g i"
  with NaN show ?thesis by (simp add: accepted_def)
next
  case (Idx z)
  assume "accepted g i"
  with Idx have "0 \<le> z" "nat z < length (board g)" "board g ! nat z = Empty"
    by (auto simp: accepted_def cellAt_def split: if_splits)
  with Idx show ?thesis
    by (intro exI[of _ "nat z"]) (simp add: marked_def)
qed

lemma board_handleCellClick:
  "accepted g i \<Longrightarrow> board (handleCellClick g i) = marked g i"
  by (cases "checkWinLoop (marked g i) winPatterns"; cases "boardFull (marked g i)")
     (simp_all add: handleCellClick_def attemptMove_win attemptMove_draw attemptMove_continue)

lemma active_handleCellClick:
  "accepted g i \<Longrightarrow> gameIsActive (handleCellClick g i) \<Longrightarrow>
   currentPlayer (handleCellClick g i) = (if currentPlayer g = PlayerX then PlayerO else PlayerX)"
  by (cases "checkWinLoop (marked g i) winPatterns"; cases "boardFull (marked g i)")
     (simp_all add: handleCellClick_def attemptMove_win attemptMove_draw attemptMove_continue)

lemma turnInv_click: "turnInv g \<Longrightarrow> turnInv (handleCellClick g i)"
proof (cases "accepted g i")
  case False
  assume "turnInv g"
  with False show ?thesis by (simp add: handleCellClick_rejected)
next
  case True
  assume inv: "turnInv g"
  from accepted_marked[OF True] obtain n where
    n: "n < length (board g)" "board g ! n = Empty"
       "marked g i = (board g)[n := Mark (currentPlayer g)]" by blast
  have act: "gameIsActive g" using True by (simp add: accepted_def)
  have b: "board (handleCellClick g i) = (board g)[n := Mark (currentPlayer g)]"
    using board_handleCellClick[OF True] n(3) by simp
  show ?thesis
    using inv act active_handleCellClick[OF True]
    unfolding turnInv_def b
    by (cases "currentPlayer g") (auto simp: countMark_update[OF n(1,2)])
qed

lemma turnInv_reset: "turnInv (resetGame g)"
  by (simp add: turnInv_def resetGame_def countMark_replicate)

lemma turnInv_fire: "turnInv g \<Longrightarrow> turnInv (fire g e)"
  by (cases e) (simp_all add: turnInv_click turnInv_reset resetAll_def)

lemma turnInv_run: "turnInv g \<Longrightarrow> turnInv (run g es)"
  unfolding run_def by (induction es arbitrary: g) (simp_all add: turnInv_fire)

lemma turnInv_newGame: "turnInv newGame"
  by (simp add: turnInv_def newGame_def countMark_def)

lemma movers_from:
  "k < length (movers g js) \<Longrightarrow>
   movers g js ! k =
     (if even k then currentPlayer g
      else (if currentPlayer g = PlayerX then PlayerO else PlayerX))"
proof (induction js arbitrary: g k)
  case Nil
  then show ?case by simp
next
  case (Cons i js)
  show ?case
  proof (cases "accepted g i")
    case False
    then show ?thesis using Cons by (simp add: handleCellClick_rejected)
  next
    case True
    show ?thesis
    proof (cases k)
      case 0
      then show ?thesis using True by simp
    next
      case (Suc m)
      let ?g' = "handleCellClick g i"
      have len: "m < length (movers ?g' js)" using Cons.prems True Suc by simp
      have act: "gameIsActive ?g'"
      proof (rule ccontr)
        assume "\<not> gameIsActive ?g'"
        then have "movers ?g' js = []"
          by (induction js) (simp_all add: handleCellClick_rejected inactive_not_accepted)
        with len show False by simp
      qed
      have "movers g (i # js) ! k = movers ?g' js ! m" using True Suc by simp
      also have "\<dots> = (if even m then currentPlayer ?g'
            else (if currentPlayer ?g' = PlayerX then PlayerO else PlayerX))"
        by (rule Cons.IH[OF len])
      finally show ?thesis
        using active_handleCellClick[OF True act] Suc by (cases "currentPlayer g") auto
    qed
  qed
qed

subsection \<open>Filling the board\<close>

lemma play_snoc: "play g (js @ [i]) = handleCellClick (play g js) i"
  by (simp add: play_def)

lemma play_take_Suc:
  "k < length js \<Longrightarrow> play g (take (Suc k) js) = handleCellClick (play g (take k js)) (js ! k)"
  by (simp add: take_Suc_conv_app_nth play_snoc)

lemma no_match_loop:
  "(\<forall>p\<in>set ps. \<not> matches bd p) \<Longrightarrow> checkWinLoop bd ps = None"
  by (induction ps) auto

lemma boardFull_nth: "boardFull bd \<longleftrightarrow> (\<forall>n<length bd. bd ! n \<noteq> Empty)"
  by (simp add: boardFull_def list_all_length)

lemma length_all_indices:
  assumes "distinct js" and "set js = Idx ` {0..8}"
  shows "length js = 9"
proof -
  have "inj_on Idx {0..8}" by (simp add: inj_on_def)
  then have "card (Idx ` {0..8}) = card {0..8::int}" by (rule card_image)
  then have "card (set js) = 9" using assms(2) by simp
  then show ?thesis using distinct_card[OF assms(1)] by simp
qed

lemma markedBy_full:
  assumes "markedBy js bd"
  shows "boardFull bd \<longleftrightarrow> Idx ` {0..8} \<subseteq> set js"
proof
  assume full: "boardFull bd"
  show "Idx ` {0..8} \<subseteq> set js"
  proof
    fix i assume "i \<in> Idx ` {0..8}"
    then obtain z where z: "i = Idx z" "0 \<le> z" "z \<le> 8" by auto
    then have "nat z < 9" by simp
    moreover have "bd ! nat z \<noteq> Empty"
      using full assms z by (simp add: boardFull_nth markedBy_def)
    ultimately have "Idx (int (nat z)) \<in> set js" using assms by (simp add: markedBy_def)
    then show "i \<in> set js" using z by simp
  qed
next
  assume sub: "Idx ` {0..8} \<subseteq> set js"
  have "bd ! n \<noteq> Empty" if "n < 9" for n
  proof -
    have "Idx (int n) \<in> Idx ` {0..8}" using that by simp
    then have "Idx (int n) \<in> set js" using sub by blast
    then show ?thesis using assms that by (simp add: markedBy_def)
  qed
  then show "boardFull bd" using assms by (simp add: boardFull_nth markedBy_def)
qed

lemma markedBy_step:
  assumes "markedBy js bd" and "0 \<le> z" and "z \<le> 8"
  shows "markedBy (js @ [Idx z]) (bd[nat z := Mark p])"
  unfolding markedBy_def
proof (intro conjI allI impI)
  show "length (bd[nat z := Mark p]) = 9" using assms by (simp add: markedBy_def)
  fix n :: nat assume n: "n < 9"
  show "(bd[nat z := Mark p] ! n = Empty) = (Idx (int n) \<notin> set (js @ [Idx z]))"
  proof (cases "n = nat z")
    case True
    then show ?thesis using assms n by (simp add: markedBy_def)
  next
    case False
    then have "int n \<noteq> z" using assms(2) by auto
    then show ?thesis using assms n False by (simp add: markedBy_def)
  qed
qed

lemma prefix_not_all:
  assumes "k < 9"
  shows "\<not> Idx ` {0..8} \<subseteq> set (take k js)"
proof
  assume sub: "Idx ` {0..8} \<subseteq> set (take k js)"
  have "inj_on Idx {0..8}" by (simp add: inj_on_def)
  then have "card (Idx ` {0..8}) = card {0..8::int}" by (rule card_image)
  then have "card (Idx ` {0..8}) = 9" by simp
  moreover have "card (Idx ` {0..8}) \<le> card (set (take k js))"
    using sub by (intro card_mono) simp_all
  moreover have "card (set (take k js)) \<le> k"
    using card_length[of "take k js"] by simp
  ultimately show False using assms by simp
qed

lemma draw_run:
  assumes e: "board g = replicate 9 Empty" and a: "gameIsActive g" and w: "winningCells g = []"
    and d: "distinct js" and s: "set js = Idx ` {0..8}"
    and nl: "\<forall>k\<le>9. \<forall>p\<in>set winPatterns. \<not> matches (board (play g (take k js))) p"
  shows "k \<le> 9 \<Longrightarrow>
     markedBy (take k js) (board (play g (take k js))) \<and>
     winningCells (play g (take k js)) = [] \<and>
     gameIsActive (play g (take k js)) = (k < 9) \<and>
     scores (play g (take k js)) =
       (if k = 9 then (scores g)\<lparr>scoreDraw := scoreDraw (scores g) + 1\<rparr> else scores g)"
proof (induction k)
  case 0
  show ?case using e a w by (simp add: play_def markedBy_def)
next
  case (Suc k)
  let ?h = "play g (take k js)"
  let ?j = "js ! k"
  have len: "length js = 9" by (rule length_all_indices[OF d s])
  have k: "k < 9" using Suc.prems by simp
  then have klen: "k < length js" using len by simp
  have IH: "markedBy (take k js) (board ?h)" "winningCells ?h = []" "gameIsActive ?h"
    "scores ?h = scores g"
    using Suc.IH k by simp_all
  have tk: "take (Suc k) js = take k js @ [?j]" using klen by (simp add: take_Suc_conv_app_nth)
  have "?j \<in> set js" using klen by simp
  then obtain z where z: "?j = Idx z" "0 \<le> z" "z \<le> 8" using s by auto
  have "distinct (take (Suc k) js)" using d by simp
  then have fresh: "?j \<notin> set (take k js)" unfolding tk by simp
  have nz: "nat z < 9" using z by simp
  have "Idx (int (nat z)) \<notin> set (take k js)" using fresh z by simp
  then have emp: "board ?h ! nat z = Empty" using IH(1) nz by (simp add: markedBy_def)
  have l9: "length (board ?h) = 9" using IH(1) by (simp add: markedBy_def)
  have acc: "accepted ?h ?j"
    using z nz emp l9 IH(3) by (simp add: accepted_def cellAt_def)
  have mk: "marked ?h ?j = (board ?h)[nat z := Mark (currentPlayer ?h)]"
    using z nz l9 by (simp add: marked_def)
  have step: "play g (take (Suc k) js) = handleCellClick ?h ?j"
    by (rule play_take_Suc[OF klen])
  have "\<forall>p\<in>set winPatterns. \<not> matches (board (handleCellClick ?h ?j)) p"
    using nl Suc.prems step by metis
  then have none: "checkWinLoop (marked ?h ?j) winPatterns = None"
    using board_handleCellClick[OF acc] by (simp add: no_match_loop)
  have mb: "markedBy (take (Suc k) js) (marked ?h ?j)"
    using markedBy_step[OF IH(1) z(2,3), of "currentPlayer ?h"] tk mk z(1) by simp
  have full: "boardFull (marked ?h ?j) = (Suc k = 9)"
  proof (cases "Suc k = 9")
    case True
    then have "take (Suc k) js = js" using len by simp
    then show ?thesis using markedBy_full[OF mb] s True by simp
  next
    case False
    then have "Suc k < 9" using Suc.prems by simp
    then show ?thesis using markedBy_full[OF mb] prefix_not_all False by blast
  qed
  show ?case
  proof (cases "Suc k = 9")
    case True
    then have f: "boardFull (marked ?h ?j)" using full by simp
    show ?thesis
      unfolding step handleCellClick_def attemptMove_draw[OF acc none f]
      using mb IH True by simp
  next
    case False
    then have f: "\<not> boardFull (marked ?h ?j)" using full by simp
    have "Suc k < 9" using False Suc.prems by simp
    then show ?thesis
      unfolding step handleCellClick_def attemptMove_continue[OF acc none f]
      using mb IH False by simp
  qed
qed

section \<open>The claims\<close>

text \<open>
  C1. Whenever a click is accepted and, with the new mark on the board, one of the eight
  patterns matches, the round is won by the player who moved: the phase is \<open>Won\<close> of that
  player, that player's counter is one higher, the other two counters are as before, and
  any further series of clicks leaves the whole state as it is. (Only \<open>resetGame\<close>, called
  by a button, by \<open>resetAll\<close> or by the pending timer, starts play again.)
\<close>

theorem winning_move:
  assumes "accepted g i"
    and "pattern \<in> set winPatterns"
    and "matches (marked g i) pattern"
  shows "phase (handleCellClick g i) = Won (currentPlayer g) \<and>
         scoreOf (currentPlayer g) (scores (handleCellClick g i)) =
           scoreOf (currentPlayer g) (scores g) + 1 \<and>
         (\<forall>q. q \<noteq> currentPlayer g \<longrightarrow>
            scoreOf q (scores (handleCellClick g i)) = scoreOf q (scores g)) \<and>
         scoreDraw (scores (handleCellClick g i)) = scoreDraw (scores g) \<and>
         play (handleCellClick g i) js = handleCellClick g i"
proof -
  obtain p where p: "checkWinLoop (marked g i) winPatterns = Some p"
    using exists_match[OF assms(2,3)] by blast
  then have ne: "p \<noteq> []"
    using checkWinLoop_Some matches_nonempty by blast
  let ?g' = "handleCellClick g i"
  have g': "?g' = g\<lparr>board := marked g i, winningCells := p, gameIsActive := False,
        scores := incScore (currentPlayer g) (scores g),
        pendingResets := pendingResets g + 1\<rparr>"
    by (simp add: handleCellClick_def attemptMove_win[OF assms(1) p])
  have "\<not> gameIsActive ?g'" by (simp add: g')
  then have "play ?g' js = ?g'" by (rule play_inactive)
  moreover have "phase ?g' = Won (currentPlayer g)" using ne by (simp add: g' phase_def)
  moreover have "scoreOf (currentPlayer g) (scores ?g') = scoreOf (currentPlayer g) (scores g) + 1"
    by (cases "currentPlayer g") (simp_all add: g')
  moreover have "scoreOf q (scores ?g') = scoreOf q (scores g)" if "q \<noteq> currentPlayer g" for q
    using that by (cases "currentPlayer g"; cases q) (simp_all add: g')
  moreover have "scoreDraw (scores ?g') = scoreDraw (scores g)"
    by (cases "currentPlayer g") (simp_all add: g')
  ultimately show ?thesis by blast
qed

theorem winning_move_witness:
  "accepted rowInSight (Idx 2) \<and> [0, 1, 2] \<in> set winPatterns \<and>
   matches (marked rowInSight (Idx 2)) [0, 1, 2] \<and>
   phase (handleCellClick rowInSight (Idx 2)) = Won PlayerX \<and>
   scoreX (scores (handleCellClick rowInSight (Idx 2))) = 1 \<and>
   scoreO (scores (handleCellClick rowInSight (Idx 2))) = 0 \<and>
   scoreDraw (scores (handleCellClick rowInSight (Idx 2))) = 0 \<and>
   play (handleCellClick rowInSight (Idx 2)) [Idx 5, Idx 2, NaN] =
     handleCellClick rowInSight (Idx 2)"
proof -
  have a: "accepted rowInSight (Idx 2)" by code_simp
  have b: "[0, 1, 2] \<in> set winPatterns" by code_simp
  have c: "matches (marked rowInSight (Idx 2)) [0, 1, 2]" by code_simp
  have cp: "currentPlayer rowInSight = PlayerX" by code_simp
  have sc: "scores rowInSight = noScores" by code_simp
  note t = winning_move[OF a b c, of "[Idx 5, Idx 2, NaN]"]
  have "phase (handleCellClick rowInSight (Idx 2)) = Won PlayerX"
    using t cp by simp
  moreover have "scoreX (scores (handleCellClick rowInSight (Idx 2))) = 1"
    using t cp sc by (simp add: noScores_def)
  moreover have "scoreO (scores (handleCellClick rowInSight (Idx 2))) = 0"
  proof -
    from t have "PlayerO \<noteq> currentPlayer rowInSight \<longrightarrow>
          scoreOf PlayerO (scores (handleCellClick rowInSight (Idx 2))) =
          scoreOf PlayerO (scores rowInSight)"
      by blast
    then have "scoreOf PlayerO (scores (handleCellClick rowInSight (Idx 2))) =
          scoreOf PlayerO (scores rowInSight)"
      using cp by simp
    then show ?thesis using sc by (simp add: noScores_def)
  qed
  moreover have "scoreDraw (scores (handleCellClick rowInSight (Idx 2))) = 0"
    using t sc by (simp add: noScores_def)
  moreover have "play (handleCellClick rowInSight (Idx 2)) [Idx 5, Idx 2, NaN] =
     handleCellClick rowInSight (Idx 2)"
    using t by blast
  ultimately show ?thesis using a b c by blast
qed

text \<open>
  C2. Take a round that starts on the empty board, and nine clicks that hit each of the
  cells 0 to 8 once, such that no position that arises shows a matching pattern. Then
  after \<open>k\<close> of the clicks the phase is \<open>Draw\<close> if \<open>k = 9\<close> and \<open>InProgress\<close> before;
  the board is full exactly at \<open>k = 9\<close>; the counters are untouched before, and at
  \<open>k = 9\<close> the draw counter, and only it, is one higher.
\<close>

theorem full_board_without_line_is_draw:
  assumes "board g = replicate 9 Empty" and "gameIsActive g" and "winningCells g = []"
    and "distinct js" and "set js = Idx ` {0..8}"
    and "\<forall>k\<le>9. \<forall>p\<in>set winPatterns. \<not> matches (board (play g (take k js))) p"
    and "k \<le> 9"
  shows "phase (play g (take k js)) = (if k = 9 then Draw else InProgress) \<and>
         boardFull (board (play g (take k js))) = (k = 9) \<and>
         scores (play g (take k js)) =
           (if k = 9 then (scores g)\<lparr>scoreDraw := scoreDraw (scores g) + 1\<rparr> else scores g) \<and>
         play g js = play g (take 9 js)"
proof -
  note r = draw_run[OF assms]
  have len: "length js = 9" by (rule length_all_indices[OF assms(4,5)])
  have "boardFull (board (play g (take k js))) = (k = 9)"
  proof (cases "k = 9")
    case True
    then have "take k js = js" using len by simp
    then show ?thesis using markedBy_full[of "take k js"] r assms(5) True by simp
  next
    case False
    then have "k < 9" using assms(7) by simp
    then show ?thesis using markedBy_full[of "take k js"] r prefix_not_all False by blast
  qed
  moreover have "phase (play g (take k js)) = (if k = 9 then Draw else InProgress)"
    using r assms(7) by (cases "k = 9") (simp_all add: phase_def)
  moreover have "play g js = play g (take 9 js)" using len by simp
  ultimately show ?thesis using r by simp
qed

theorem full_board_without_line_is_draw_witness:
  "board newGame = replicate 9 Empty \<and> gameIsActive newGame \<and> winningCells newGame = [] \<and>
   distinct drawMoves \<and> set drawMoves = Idx ` {0..8} \<and>
   list_all (\<lambda>k. list_all (\<lambda>p. \<not> matches (board (play newGame (take k drawMoves))) p)
     winPatterns) [0..<10] \<and>
   phase (play newGame (take 8 drawMoves)) = InProgress \<and>
   scores (play newGame (take 8 drawMoves)) = noScores \<and>
   phase (play newGame drawMoves) = Draw \<and>
   boardFull (board (play newGame drawMoves)) \<and>
   scores (play newGame drawMoves) = \<lparr>scoreX = 0, scoreO = 0, scoreDraw = 1\<rparr>"
proof -
  have h1: "board newGame = replicate 9 Empty" by code_simp
  have h2: "gameIsActive newGame" by code_simp
  have h3: "winningCells newGame = []" by code_simp
  have h4: "distinct drawMoves" by code_simp
  have h5: "set drawMoves = Idx ` {0..8}" by code_simp
  have l6: "list_all (\<lambda>k. list_all (\<lambda>p. \<not> matches (board (play newGame (take k drawMoves))) p)
     winPatterns) [0..<10]"
    by code_simp
  then have h6: "\<forall>k\<le>9. \<forall>p\<in>set winPatterns.
          \<not> matches (board (play newGame (take k drawMoves))) p"
    by (simp add: list_all_iff)
  have sc: "scores newGame = noScores" by code_simp
  have t9: "take 9 drawMoves = drawMoves" by code_simp
  have c8: "phase (play newGame (take 8 drawMoves)) = InProgress \<and>
            scores (play newGame (take 8 drawMoves)) = noScores"
    using full_board_without_line_is_draw[OF h1 h2 h3 h4 h5 h6, of 8] sc by simp
  have c9: "phase (play newGame drawMoves) = Draw \<and>
            boardFull (board (play newGame drawMoves)) \<and>
            scores (play newGame drawMoves) = \<lparr>scoreX = 0, scoreO = 0, scoreDraw = 1\<rparr>"
    using full_board_without_line_is_draw[OF h1 h2 h3 h4 h5 h6, of 9] sc t9
    by (simp add: noScores_def)
  show ?thesis using h1 h2 h3 h4 h5 l6 c8 c9 by blast
qed

text \<open>
  C3. On a board of nine cells, a click is without any effect when the phase is not
  \<open>InProgress\<close>, or the cell clicked holds a mark, or the index is none of 0 to 8
  (\<open>NaN\<close> included): the state returned is the state given, field by field, and the
  branch taken is \<open>Rejected\<close>. No step of \<open>handleCellClick\<close> can throw on such a
  click: it reads \<open>this.board[index]\<close>, compares and returns.
\<close>

theorem rejected_click_changes_nothing:
  assumes "length (board g) = 9"
    and "phase g \<noteq> InProgress \<or> (\<exists>p. boardAt (board g) i = Some (Mark p)) \<or> i \<notin> Idx ` {0..8}"
  shows "handleCellClick g i = g \<and> fst (attemptMove g i) = Rejected"
proof -
  have "\<not> accepted g i"
    using assms boardAt_outside[of "board g" i]
    by (auto simp: accepted_def phase_InProgress)
  then show ?thesis
    by (simp add: handleCellClick_def attemptMove_rejected)
qed

theorem rejected_click_changes_nothing_witness:
  "length (board afterWin) = 9 \<and> phase afterWin \<noteq> InProgress \<and>
   handleCellClick afterWin (Idx 5) = afterWin \<and>
   length (board rowInSight) = 9 \<and> boardAt (board rowInSight) (Idx 3) = Some (Mark PlayerO) \<and>
   handleCellClick rowInSight (Idx 3) = rowInSight \<and>
   Idx 9 \<notin> Idx ` {0..8} \<and> handleCellClick rowInSight (Idx 9) = rowInSight \<and>
   Idx (- 1) \<notin> Idx ` {0..8} \<and> handleCellClick rowInSight (Idx (- 1)) = rowInSight \<and>
   NaN \<notin> Idx ` {0..8} \<and> handleCellClick rowInSight NaN = rowInSight"
proof -
  have l1: "length (board afterWin) = 9" by code_simp
  have p1: "phase afterWin \<noteq> InProgress" by code_simp
  have l2: "length (board rowInSight) = 9" by code_simp
  have p2: "boardAt (board rowInSight) (Idx 3) = Some (Mark PlayerO)" by code_simp
  have p3: "Idx 9 \<notin> Idx ` {0..8}" by auto
  have p4: "Idx (- 1) \<notin> Idx ` {0..8}" by auto
  have p5: "NaN \<notin> Idx ` {0..8}" by auto
  have "handleCellClick afterWin (Idx 5) = afterWin"
    using rejected_click_changes_nothing[OF l1, of "Idx 5"] p1 by blast
  moreover have "handleCellClick rowInSight (Idx 3) = rowInSight"
    using rejected_click_changes_nothing[OF l2, of "Idx 3"] p2 by blast
  moreover have "handleCellClick rowInSight (Idx 9) = rowInSight"
    using rejected_click_changes_nothing[OF l2, of "Idx 9"] p3 by blast
  moreover have "handleCellClick rowInSight (Idx (- 1)) = rowInSight"
    using rejected_click_changes_nothing[OF l2, of "Idx (- 1)"] p4 by blast
  moreover have "handleCellClick rowInSight NaN = rowInSight"
    using rejected_click_changes_nothing[OF l2, of NaN] p5 by blast
  ultimately show ?thesis using l1 p1 l2 p2 p3 p4 p5 by blast
qed

text \<open>
  C4. After any series of events from the state the constructor builds (clicks on cells
  with any index, clicks on both buttons, pending timers running), the board holds as
  many \<open>X\<close> as \<open>O\<close>, or one \<open>X\<close> more.
\<close>

theorem marks_balanced:
  "countMark PlayerX (board (run newGame es)) = countMark PlayerO (board (run newGame es)) \<or>
   countMark PlayerX (board (run newGame es)) = countMark PlayerO (board (run newGame es)) + 1"
  using turnInv_run[OF turnInv_newGame, of es] by (simp add: turnInv_def)

text \<open>
  C5. The list \<open>winPatterns\<close> is the three rows, then the three columns, then the two
  diagonals. When a click is accepted and the pattern at position \<open>k\<close> of the list matches
  the new board while none before it does, this pattern is the one stored in
  \<open>winningCells\<close>, whatever patterns match further down the list.
\<close>

theorem first_matching_pattern_recorded:
  assumes "accepted g i"
    and "k < length winPatterns"
    and "matches (marked g i) (winPatterns ! k)"
    and "\<forall>j<k. \<not> matches (marked g i) (winPatterns ! j)"
  shows "winPatterns = rowsOfBoard @ columnsOfBoard @ diagonalsOfBoard \<and>
         fst (attemptMove g i) = Win (currentPlayer g) (winPatterns ! k) \<and>
         winningCells (handleCellClick g i) = winPatterns ! k"
proof -
  have p: "checkWinLoop (marked g i) winPatterns = Some (winPatterns ! k)"
    using assms(2,3,4) by (intro checkWinLoop_first) auto
  have "winPatterns = rowsOfBoard @ columnsOfBoard @ diagonalsOfBoard"
    by (simp add: winPatterns_def rowsOfBoard_def columnsOfBoard_def diagonalsOfBoard_def)
  then show ?thesis
    by (simp add: handleCellClick_def attemptMove_win[OF assms(1) p])
qed

theorem first_matching_pattern_recorded_witness:
  "accepted twoLinesInSight (Idx 0) \<and> 3 < length winPatterns \<and>
   matches (marked twoLinesInSight (Idx 0)) (winPatterns ! 3) \<and>
   list_all (\<lambda>j. \<not> matches (marked twoLinesInSight (Idx 0)) (winPatterns ! j)) [0..<3] \<and>
   matches (marked twoLinesInSight (Idx 0)) (winPatterns ! 6) \<and>
   winningCells (handleCellClick twoLinesInSight (Idx 0)) = [0, 3, 6]"
proof -
  have a: "accepted twoLinesInSight (Idx 0)" by code_simp
  have b: "3 < length winPatterns" by code_simp
  have c: "matches (marked twoLinesInSight (Idx 0)) (winPatterns ! 3)" by code_simp
  have l: "list_all (\<lambda>j. \<not> matches (marked twoLinesInSight (Idx 0)) (winPatterns ! j)) [0..<3]"
    by code_simp
  then have d: "\<forall>j<3. \<not> matches (marked twoLinesInSight (Idx 0)) (winPatterns ! j)"
    by (simp add: list_all_iff)
  have e: "matches (marked twoLinesInSight (Idx 0)) (winPatterns ! 6)" by code_simp
  have f: "winPatterns ! 3 = [0, 3, 6]" by code_simp
  have "winningCells (handleCellClick twoLinesInSight (Idx 0)) = [0, 3, 6]"
    using first_matching_pattern_recorded[OF a b c d] f by simp
  then show ?thesis using a b c l e by blast
qed

text \<open>
  C6. An accepted click that leaves the game running hands the turn to the other player.
  Hence, in a round that starts on the empty board with \<open>X\<close> to move, the players who make
  the accepted moves are \<open>X, O, X, O, ...\<close>: the move number \<open>k\<close> (counted from 0) is
  made by \<open>X\<close> when \<open>k\<close> is even and by \<open>O\<close> when it is odd, whatever clicks are
  rejected in between.
\<close>

theorem movers_alternate:
  assumes "board g = replicate 9 Empty" and "currentPlayer g = PlayerX"
  shows "(accepted h i \<and> gameIsActive (handleCellClick h i) \<longrightarrow>
            currentPlayer (handleCellClick h i) \<noteq> currentPlayer h) \<and>
         (k < length (movers g js) \<longrightarrow>
            movers g js ! k = (if even k then PlayerX else PlayerO))"
  using assms(2) movers_from[of k g js] active_handleCellClick[of h i]
  by (cases "currentPlayer h") auto

theorem movers_alternate_witness:
  "board newGame = replicate 9 Empty \<and> currentPlayer newGame = PlayerX \<and>
   accepted rowInSight (Idx 8) \<and> gameIsActive (handleCellClick rowInSight (Idx 8)) \<and>
   currentPlayer (handleCellClick rowInSight (Idx 8)) \<noteq> currentPlayer rowInSight \<and>
   3 < length (movers newGame [Idx 0, Idx 0, Idx 3, NaN, Idx 1, Idx 4, Idx 2, Idx 5]) \<and>
   movers newGame [Idx 0, Idx 0, Idx 3, NaN, Idx 1, Idx 4, Idx 2, Idx 5] ! 3 = PlayerO"
proof -
  have a: "board newGame = replicate 9 Empty" by code_simp
  have b: "currentPlayer newGame = PlayerX" by code_simp
  have c: "accepted rowInSight (Idx 8)" by code_simp
  have d: "gameIsActive (handleCellClick rowInSight (Idx 8))" by code_simp
  have e: "3 < length (movers newGame [Idx 0, Idx 0, Idx 3, NaN, Idx 1, Idx 4, Idx 2, Idx 5])"
    by code_simp
  note t = movers_alternate[OF a b, of rowInSight "Idx 8" 3
      "[Idx 0, Idx 0, Idx 3, NaN, Idx 1, Idx 4, Idx 2, Idx 5]"]
  have "currentPlayer (handleCellClick rowInSight (Idx 8)) \<noteq> currentPlayer rowInSight"
    using t c d by blast
  moreover have "movers newGame [Idx 0, Idx 0, Idx 3, NaN, Idx 1, Idx 4, Idx 2, Idx 5] ! 3 = PlayerO"
    using t e by simp
  ultimately show ?thesis using a b c d e by blast
qed

text \<open>
  C7. From any state, \<open>resetGame\<close> leaves a board of the same size with every cell empty,
  \<open>X\<close> to move, the game active (phase \<open>InProgress\<close>), no winning cells, and the scores
  it found.
\<close>

theorem resetGame_state:
  "board (resetGame g) = replicate (length (board g)) Empty \<and>
   length (board (resetGame g)) = length (board g) \<and>
   list_all (\<lambda>c. c = Empty) (board (resetGame g)) \<and>
   currentPlayer (resetGame g) = PlayerX \<and>
   gameIsActive (resetGame g) \<and>
   phase (resetGame g) = InProgress \<and>
   winningCells (resetGame g) = [] \<and>
   scores (resetGame g) = scores g"
  by (simp add: resetGame_def phase_def list_all_length)

text \<open>
  C8. From any state, \<open>resetAll\<close> leaves the board, the player to move, the activity
  flag, the phase and the winning cells that \<open>resetGame\<close> leaves, and all three counters
  at zero; it is \<open>resetGame\<close> followed by zeroing the counters.
\<close>

theorem resetAll_state:
  "board (resetAll g) = board (resetGame g) \<and>
   currentPlayer (resetAll g) = currentPlayer (resetGame g) \<and>
   gameIsActive (resetAll g) = gameIsActive (resetGame g) \<and>
   phase (resetAll g) = phase (resetGame g) \<and>
   winningCells (resetAll g) = winningCells (resetGame g) \<and>
   scoreX (scores (resetAll g)) = 0 \<and>
   scoreO (scores (resetAll g)) = 0 \<and>
   scoreDraw (scores (resetAll g)) = 0 \<and>
   resetAll g = (resetGame g)\<lparr>scores := noScores\<rparr>"
  by (simp add: resetAll_def resetGame_def phase_def noScores_def)

text \<open>
  C9, as amended. While the phase is \<open>Won\<close> or \<open>Draw\<close>, a click on a cell changes
  nothing, and the phase changes only when \<open>resetGame\<close> runs: on a click on the restart
  button, on a click on the reset-all button, or, with no click at all, when a callback
  that \<open>handleWin\<close> or \<open>handleDraw\<close> has left with \<open>setTimeout\<close> is pending and
  runs. Each of them leads to \<open>InProgress\<close> on the board that \<open>resetGame\<close> produces,
  and a pending callback that runs always does so.
\<close>

theorem terminal_phase_left_by_reset_only:
  assumes "phase g \<noteq> InProgress"
  shows "handleCellClick g i = g \<and>
         (phase (fire g e) \<noteq> phase g \<longrightarrow>
            phase (fire g e) = InProgress \<and>
            (e = RestartClick \<or> e = ResetAllClick \<or>
             (e = TimerFire \<and> 0 < pendingResets g)) \<and>
            board (fire g e) = board (resetGame g)) \<and>
         (0 < pendingResets g \<longrightarrow> phase (fire g TimerFire) = InProgress)"
proof -
  have ina: "\<not> gameIsActive g" using assms by (simp add: phase_InProgress)
  then have noop: "handleCellClick g i = g" for i
    by (simp add: handleCellClick_rejected inactive_not_accepted)
  have timer: "0 < pendingResets g \<longrightarrow> phase (fire g TimerFire) = InProgress"
    by (simp add: resetGame_def phase_def)
  have "phase (fire g e) \<noteq> phase g \<longrightarrow>
            phase (fire g e) = InProgress \<and>
            (e = RestartClick \<or> e = ResetAllClick \<or>
             (e = TimerFire \<and> 0 < pendingResets g)) \<and>
            board (fire g e) = board (resetGame g)"
  proof (cases e)
    case (CellClick j)
    then show ?thesis using noop by simp
  next
    case RestartClick
    then show ?thesis by (simp add: resetGame_def phase_def)
  next
    case ResetAllClick
    then show ?thesis by (simp add: resetAll_def resetGame_def phase_def)
  next
    case TimerFire
    then show ?thesis by (simp add: resetGame_def phase_def)
  qed
  then show ?thesis using noop timer by blast
qed

theorem terminal_phase_left_by_reset_only_witness:
  "phase afterWin \<noteq> InProgress \<and>
   handleCellClick afterWin (Idx 5) = afterWin \<and>
   phase (fire afterWin TimerFire) \<noteq> phase afterWin \<and>
   phase (fire afterWin TimerFire) = InProgress \<and>
   0 < pendingResets afterWin \<and>
   board (fire afterWin TimerFire) = board (resetGame afterWin)"
proof -
  have a: "phase afterWin \<noteq> InProgress" by code_simp
  have b: "phase (fire afterWin TimerFire) \<noteq> phase afterWin" by code_simp
  have c: "TimerFire \<noteq> RestartClick" "TimerFire \<noteq> ResetAllClick" by simp_all
  show ?thesis
    using terminal_phase_left_by_reset_only[OF a, of "Idx 5" TimerFire] a b c by blast
qed

text \<open>
  C9, as stated, fails: it lets the terminal phase end only on an explicit reset and
  denies any automatic way back to \<open>InProgress\<close>. After the five clicks 0, 3, 1, 4, 2
  on a new game the phase is \<open>Won\<close> of \<open>X\<close>, and the winning click itself has left
  one callback pending. When that callback runs, with no button clicked, the phase is
  \<open>InProgress\<close> again, and the next click on cell 4 is accepted and marks it for \<open>X\<close>.
\<close>

theorem terminal_phase_left_by_timer:
  "phase (run newGame [CellClick (Idx 0), CellClick (Idx 3), CellClick (Idx 1),
      CellClick (Idx 4), CellClick (Idx 2)]) = Won PlayerX \<and>
   pendingResets (run newGame [CellClick (Idx 0), CellClick (Idx 3), CellClick (Idx 1),
      CellClick (Idx 4), CellClick (Idx 2)]) = 1 \<and>
   phase (run newGame [CellClick (Idx 0), CellClick (Idx 3), CellClick (Idx 1),
      CellClick (Idx 4), CellClick (Idx 2), TimerFire]) = InProgress \<and>
   board (run newGame [CellClick (Idx 0), CellClick (Idx 3), CellClick (Idx 1),
      CellClick (Idx 4), CellClick (Idx 2), TimerFire, CellClick (Idx 4)]) =
     [Empty, Empty, Empty, Empty, Mark PlayerX, Empty, Empty, Empty, Empty]"
  by code_simp

text \<open>
  C10. A winning move does not hand the turn over: after it, \<open>currentPlayer\<close> is still the
  player who moved, the phase is \<open>Won\<close> of that player, and the cell clicked carries that
  player's mark. A click changes \<open>currentPlayer\<close> only when it takes the branch
  \<open>Continue\<close>.
\<close>

theorem winner_remains_current:
  "(accepted g i \<and> pattern \<in> set winPatterns \<and> matches (marked g i) pattern \<longrightarrow>
      currentPlayer (handleCellClick g i) = currentPlayer g \<and>
      phase (handleCellClick g i) = Won (currentPlayer (handleCellClick g i)) \<and>
      boardAt (board (handleCellClick g i)) i = Some (Mark (currentPlayer (handleCellClick g i)))) \<and>
   (currentPlayer (handleCellClick g i) \<noteq> currentPlayer g \<longrightarrow>
      fst (attemptMove g i) = Continue (currentPlayer (handleCellClick g i)))"
proof (intro conjI impI)
  assume a: "accepted g i \<and> pattern \<in> set winPatterns \<and> matches (marked g i) pattern"
  then obtain p where p: "checkWinLoop (marked g i) winPatterns = Some p"
    using exists_match by blast
  then have ne: "p \<noteq> []"
    using checkWinLoop_Some matches_nonempty by blast
  have g': "handleCellClick g i = g\<lparr>board := marked g i, winningCells := p, gameIsActive := False,
        scores := incScore (currentPlayer g) (scores g),
        pendingResets := pendingResets g + 1\<rparr>"
    using a by (simp add: handleCellClick_def attemptMove_win[OF _ p])
  show "currentPlayer (handleCellClick g i) = currentPlayer g" by (simp add: g')
  show "phase (handleCellClick g i) = Won (currentPlayer (handleCellClick g i))"
    using ne by (simp add: g' phase_def)
  have "boardAt (marked g i) i = Some (Mark (currentPlayer g))"
    using a by (cases i) (auto simp: accepted_def marked_def cellAt_def split: if_splits)
  then show "boardAt (board (handleCellClick g i)) i = Some (Mark (currentPlayer (handleCellClick g i)))"
    by (simp add: g')
next
  assume d: "currentPlayer (handleCellClick g i) \<noteq> currentPlayer g"
  show "fst (attemptMove g i) = Continue (currentPlayer (handleCellClick g i))"
  proof (cases "accepted g i")
    case False
    then show ?thesis using d by (simp add: handleCellClick_def attemptMove_rejected)
  next
    case True
    show ?thesis
    proof (cases "checkWinLoop (marked g i) winPatterns")
      case (Some p)
      then show ?thesis using d by (simp add: handleCellClick_def attemptMove_win[OF True Some])
    next
      case None
      show ?thesis
      proof (cases "boardFull (marked g i)")
        case full: True
        then show ?thesis using d
          by (simp add: handleCellClick_def attemptMove_draw[OF True None full])
      next
        case nf: False
        then show ?thesis
          by (simp add: handleCellClick_def attemptMove_continue[OF True None nf])
      qed
    qed
  qed
qed

theorem winner_remains_current_witness:
  "accepted rowInSight (Idx 2) \<and> [0, 1, 2] \<in> set winPatterns \<and>
   matches (marked rowInSight (Idx 2)) [0, 1, 2] \<and>
   currentPlayer (handleCellClick rowInSight (Idx 2)) = PlayerX \<and>
   phase (handleCellClick rowInSight (Idx 2)) = Won PlayerX \<and>
   currentPlayer (handleCellClick rowInSight (Idx 8)) \<noteq> currentPlayer rowInSight \<and>
   fst (attemptMove rowInSight (Idx 8)) = Continue PlayerO"
proof -
  have a: "accepted rowInSight (Idx 2)" by code_simp
  have b: "[0, 1, 2] \<in> set winPatterns" by code_simp
  have c: "matches (marked rowInSight (Idx 2)) [0, 1, 2]" by code_simp
  have cp: "currentPlayer rowInSight = PlayerX" by code_simp
  have d: "currentPlayer (handleCellClick rowInSight (Idx 8)) \<noteq> currentPlayer rowInSight"
    by code_simp
  have e: "currentPlayer (handleCellClick rowInSight (Idx 8)) = PlayerO" by code_simp
  have "currentPlayer (handleCellClick rowInSight (Idx 2)) = currentPlayer rowInSight \<and>
        phase (handleCellClick rowInSight (Idx 2)) =
          Won (currentPlayer (handleCellClick rowInSight (Idx 2)))"
    using winner_remains_current[of rowInSight "Idx 2" "[0, 1, 2]"] a b c by blast
  then have "currentPlayer (handleCellClick rowInSight (Idx 2)) = PlayerX \<and>
        phase (handleCellClick rowInSight (Idx 2)) = Won PlayerX"
    using cp by simp
  moreover have "fst (attemptMove rowInSight (Idx 8)) =
        Continue (currentPlayer (handleCellClick rowInSight (Idx 8)))"
    using winner_remains_current[of rowInSight "Idx 8" "[]"] d by blast
  then have "fst (attemptMove rowInSight (Idx 8)) = Continue PlayerO"
    using e by simp
  ultimately show ?thesis using a b c d by blast
qed

end
